theory Spec2Isabelle
  imports Main
begin

section \<open>Python values used by the scraper\<close>

text \<open>
  The exceptions that the modelled calls can raise.  \<open>TimeoutError\<close> is Playwright's
  timeout (the only one the loop catches), \<open>PlaywrightError\<close> any other Playwright
  failure (browser launch, navigation, click), \<open>AttributeError\<close> an attribute access
  on \<open>None\<close>, \<open>ValueError\<close> a tuple unpacking of the wrong length, \<open>OSError\<close> a
  file that cannot be opened, \<open>KeyError\<close> a missing dictionary key.
\<close>

datatype error =
  TimeoutError | PlaywrightError | AttributeError | ValueError | OSError | KeyError

text \<open>
  Python's \<open>xs[i:j]\<close> with step 1: a negative bound counts from the end, and both
  bounds are clamped into \<open>0..len(xs)\<close>; an empty range gives the empty sequence.
\<close>

definition clamp_index :: "int \<Rightarrow> nat \<Rightarrow> nat" where
  "clamp_index i n = (if i < 0 then nat (max 0 (int n + i)) else min (nat i) n)"

definition py_slice :: "'a list \<Rightarrow> int \<Rightarrow> int \<Rightarrow> 'a list" where
  "py_slice xs i j =
     (let lo = clamp_index i (length xs); hi = clamp_index j (length xs)
      in take (hi - lo) (drop lo xs))"

text \<open>\<open>s.split(c)\<close> for a one-character separator: always at least one piece.\<close>

fun split_on :: "char \<Rightarrow> string \<Rightarrow> string list" where
  "split_on c [] = [[]]"
| "split_on c (x # xs) =
     (if x = c then [] # split_on c xs
      else (case split_on c xs of
              [] \<Rightarrow> [[x]]
            | p # ps \<Rightarrow> (x # p) # ps))"

text \<open>\<open>sep.join(xs)\<close>.\<close>

fun join :: "string \<Rightarrow> string list \<Rightarrow> string" where
  "join sep [] = []"
| "join sep [x] = x"
| "join sep (x # y # ys) = x @ sep @ join sep (y # ys)"

text \<open>Truthiness of an optional string: \<open>None\<close> and the empty string are false.\<close>

definition truthy :: "string option \<Rightarrow> bool" where
  "truthy v = (case v of None \<Rightarrow> False | Some s \<Rightarrow> s \<noteq> [])"

text \<open>What an f-string prints for an optional string: \<open>None\<close> is printed as such.\<close>

definition fmt :: "string option \<Rightarrow> string" where
  "fmt v = (case v of None \<Rightarrow> ''None'' | Some s \<Rightarrow> s)"

section \<open>The parsed page\<close>

text \<open>
  The tree that \<open>BeautifulSoup(page_content, 'html.parser')\<close> builds: a text node, or
  an element with its tag name, its list of classes and its children in document
  order.  Page text is a sequence of code points of an arbitrary alphabet \<open>'c\<close>
  (Python's \<open>str\<close> counts code points, so the quote glyphs of the site are one
  character each); tag and class names are plain strings.
\<close>

datatype 'c node = Text "'c list" | Elem string "string list" "'c node list"

text \<open>An element followed by everything below it, in document order (pre-order).\<close>

fun subtree :: "'c node \<Rightarrow> 'c node list" where
  "subtree (Text t) = [Text t]"
| "subtree (Elem n cs kids) = Elem n cs kids # concat (map subtree kids)"

text \<open>The descendants of an element: the element itself is not one of them.\<close>

fun descendants :: "'c node \<Rightarrow> 'c node list" where
  "descendants (Text t) = []"
| "descendants (Elem n cs kids) = concat (map subtree kids)"

text \<open>The filter \<open>(name, class_=c)\<close>: a tag of that name that carries the class.\<close>

fun matches :: "string \<Rightarrow> string \<Rightarrow> 'c node \<Rightarrow> bool" where
  "matches n c (Text t) = False"
| "matches n c (Elem m cs kids) = (m = n \<and> c \<in> set cs)"

text \<open>\<open>el.find_all(name, class_=c)\<close>: all matching descendants, in document order.\<close>

definition find_all :: "'c node \<Rightarrow> string \<Rightarrow> string \<Rightarrow> 'c node list" where
  "find_all el n c = filter (matches n c) (descendants el)"

text \<open>\<open>el.find(name, class_=c)\<close>: the first match, or \<open>None\<close>.\<close>

definition find_elem :: "'c node \<Rightarrow> string \<Rightarrow> string \<Rightarrow> 'c node option" where
  "find_elem el n c = (case find_all el n c of [] \<Rightarrow> None | x # _ \<Rightarrow> Some x)"

text \<open>\<open>el.text\<close>: the strings below the element, concatenated in document order.\<close>

fun get_text :: "'c node \<Rightarrow> 'c list" where
  "get_text (Text t) = t"
| "get_text (Elem n cs kids) = concat (map get_text kids)"

section \<open>The world outside the program\<close>

text \<open>One line of the output file: the dictionary that \<open>writer.write\<close> serialises.\<close>

record 'c quote_line =
  q_text :: "'c list"
  q_by :: "'c list"
  q_tags :: "'c list list"

text \<open>
  A path of the file system: no file yet, a file with its lines, or a path that cannot
  be opened for writing (a directory, a file without permission).
\<close>

datatype 'c fnode = NoFile | File "'c quote_line list" | Denied

text \<open>
  What the element \<open>li.next a\<close> does on a page: it does not show up within the timeout,
  it shows up and the click fails, or the click moves the browser to an address.
\<close>

datatype next_affordance = Missing | Dead | Leads string

text \<open>What the browser shows at an address.\<close>

record 'c page_view =
  reachable :: bool
  quotes_visible :: bool
  document :: "'c node"
  next_link :: next_affordance

text \<open>The \<open>proxy\<close> entry of the arguments of \<open>chromium.launch\<close>.\<close>

record proxy_settings =
  ps_server :: string
  ps_username :: "string option"
  ps_password :: "string option"

text \<open>What the program does to the browser, in the order it does it.\<close>

datatype event =
    PlaywrightStart
  | Launch "proxy_settings option"
  | NewContext string
  | NewPage
  | Goto string
  | Click
  | BrowserClose
  | PlaywrightStop

record 'c world =
  web :: "string \<Rightarrow> 'c page_view"
  fs :: "string \<Rightarrow> 'c fnode"
  can_launch :: bool
  rand :: nat
  location :: string
  trace :: "event list"
  stdout :: "string list"

section \<open>The Scraper class\<close>

text \<open>
  The attributes of a \<open>Scraper\<close>.  A handle (\<open>browser\<close>, \<open>ctx\<close> for \<open>self.context\<close>,
  \<open>page\<close>, \<open>playwright\<close>) is modelled by whether it is set.
\<close>

record scraper =
  input_url :: string
  output_file :: string
  proxy_url :: "string option"
  server :: "string option"
  port :: "string option"
  username :: "string option"
  password :: "string option"
  browser :: bool
  ctx :: bool
  page :: bool
  playwright :: bool

definition USER_AGENTS :: "string list" where
  "USER_AGENTS =
     [''Mozilla/5.0 (Windows NT 10.0; Win64; x64) AppleWebKit/537.36 (KHTML, like Gecko) Chrome/58.0.3029.110 Safari/537.3'',
      ''Mozilla/5.0 (Windows NT 10.0; Win64; x64) AppleWebKit/537.36 (KHTML, like Gecko) Chrome/60.0.3112.113 Safari/537.36'',
      ''Mozilla/5.0 (Windows NT 6.1; Win64; x64) AppleWebKit/537.36 (KHTML, like Gecko) Chrome/60.0.3112.90 Safari/537.36'']"

text \<open>\<open>Scraper.__init__(input_url, output_file, proxy_url=None)\<close>.\<close>

definition Scraper_init :: "string \<Rightarrow> string \<Rightarrow> string option \<Rightarrow> scraper" where
  "Scraper_init u f p =
     \<lparr>input_url = u, output_file = f, proxy_url = p,
      server = None, port = None, username = None, password = None,
      browser = False, ctx = False, page = False, playwright = False\<rparr>"

definition handle_captcha :: "'c world \<Rightarrow> 'c world" where
  "handle_captcha w = w"

definition handle_cookies :: "'c world \<Rightarrow> 'c world" where
  "handle_cookies w = w"

text \<open>
  The dictionary \<open>browser_args\<close> of \<open>start_playwright\<close>: the proxy settings when
  \<open>proxy_url\<close> is truthy, and no entry at all otherwise.
\<close>

definition browser_args :: "scraper \<Rightarrow> proxy_settings option" where
  "browser_args s =
     (if truthy (proxy_url s)
      then Some \<lparr>ps_server = fmt (server s) @ '':'' @ fmt (port s),
                 ps_username = username s, ps_password = password s\<rparr>
      else None)"

text \<open>
  \<open>start_playwright\<close>: the Playwright driver is entered, then the browser is launched
  with \<open>browser_args\<close>, a context with a user agent chosen at random and a page are
  opened.  A launch that fails raises after \<open>self.playwright\<close> has been set.
  \<open>random.choice\<close> reads the world's \<open>rand\<close>.
\<close>

definition start_playwright ::
  "scraper \<Rightarrow> 'c world \<Rightarrow> (error + unit) \<times> scraper \<times> 'c world" where
  "start_playwright s w =
     (let s1 = s\<lparr>playwright := True\<rparr>;
          w1 = w\<lparr>trace := trace w @ [PlaywrightStart]\<rparr>
      in if \<not> can_launch w then (Inl PlaywrightError, s1, w1)
         else
           (Inr (),
            s1\<lparr>browser := True, ctx := True, page := True\<rparr>,
            handle_cookies (handle_captcha
              (w1\<lparr>trace := trace w1 @
                     [Launch (browser_args s),
                      NewContext (USER_AGENTS ! (rand w mod length USER_AGENTS)),
                      NewPage],
                   location := ''about:blank''\<rparr>))))"

text \<open>\<open>stop_playwright\<close>: closes the browser and stops the driver, each if it is set.\<close>

definition stop_playwright :: "scraper \<Rightarrow> 'c world \<Rightarrow> 'c world" where
  "stop_playwright s w =
     (let w1 = (if browser s then w\<lparr>trace := trace w @ [BrowserClose]\<rparr> else w)
      in if playwright s then w1\<lparr>trace := trace w1 @ [PlaywrightStop]\<rparr> else w1)"

text \<open>
  \<open>process_proxy\<close>: each of the three splits must give exactly two pieces; the user name
  and password are already stored when the third one fails.
\<close>

definition process_proxy :: "scraper \<Rightarrow> (error + unit) \<times> scraper" where
  "process_proxy s =
     (case proxy_url s of
        None \<Rightarrow> (Inl AttributeError, s)
      | Some p \<Rightarrow>
          (case split_on CHR ''@'' p of
             [username_password, server_port] \<Rightarrow>
               (case split_on CHR '':'' username_password of
                  [u, pw] \<Rightarrow>
                    (let s1 = s\<lparr>username := Some u, password := Some pw\<rparr>
                     in case split_on CHR '':'' server_port of
                          [sv, pt] \<Rightarrow> (Inr (), s1\<lparr>server := Some sv, port := Some pt\<rparr>)
                        | _ \<Rightarrow> (Inl ValueError, s1))
                | _ \<Rightarrow> (Inl ValueError, s))
           | _ \<Rightarrow> (Inl ValueError, s)))"

text \<open>
  The body of the \<open>for quote in quotes\<close> loop up to the dictionary that is written:
  \<open>find\<close> gives \<open>None\<close> for a missing sub-element, and the attribute access on it raises.
\<close>

definition quote_fields :: "'c node \<Rightarrow> error + 'c quote_line" where
  "quote_fields quote =
     (case find_elem quote ''span'' ''text'' of
        None \<Rightarrow> Inl AttributeError
      | Some sp \<Rightarrow>
          (case find_elem quote ''small'' ''author'' of
             None \<Rightarrow> Inl AttributeError
           | Some au \<Rightarrow>
               (case find_elem quote ''div'' ''tags'' of
                  None \<Rightarrow> Inl AttributeError
                | Some tg \<Rightarrow>
                    Inr \<lparr>q_text = py_slice (get_text sp) 1 (- 1),
                         q_by = get_text au,
                         q_tags = map get_text (find_all tg ''a'' ''tag'')\<rparr>)))"

text \<open>
  The \<open>for\<close> loop over the open writer: every record is written as soon as it is built,
  and the first exception leaves the loop with the lines written so far.
\<close>

fun write_quotes ::
  "'c node list \<Rightarrow> 'c quote_line list \<Rightarrow> (error + unit) \<times> 'c quote_line list" where
  "write_quotes [] ls = (Inr (), ls)"
| "write_quotes (q # qs) ls =
     (case quote_fields q of
        Inl e \<Rightarrow> (Inl e, ls)
      | Inr r \<Rightarrow> write_quotes qs (ls @ [r]))"

text \<open>\<open>jsonlines.open(path, mode='a')\<close>: the existing lines, a new file, or a failure.\<close>

fun open_append :: "'c fnode \<Rightarrow> error + 'c quote_line list" where
  "open_append NoFile = Inr []"
| "open_append (File ls) = Inr ls"
| "open_append Denied = Inl OSError"

text \<open>
  \<open>process_page\<close>: the content of the current page is parsed and searched before the
  file is opened; leaving the \<open>with\<close> block closes the file on every path, so the lines
  written before an exception are in the file.
\<close>

definition process_page :: "scraper \<Rightarrow> 'c world \<Rightarrow> (error + unit) \<times> 'c world" where
  "process_page s w =
     (if \<not> page s then (Inl AttributeError, w)
      else
        (let soup = document (web w (location w));
             quotes = find_all soup ''div'' ''quote''
         in case open_append (fs w (output_file s)) of
              Inl e \<Rightarrow> (Inl e, w)
            | Inr old \<Rightarrow>
                (case write_quotes quotes old of
                   (r, ls) \<Rightarrow> (r, w\<lparr>fs := (fs w)(output_file s := File ls)\<rparr>))))"

text \<open>\<open>wait_for_quotes\<close>: a timeout when no \<open>div.quote\<close> shows up on the current page.\<close>

definition wait_for_quotes :: "scraper \<Rightarrow> 'c world \<Rightarrow> error + unit" where
  "wait_for_quotes s w =
     (if \<not> page s then Inl AttributeError
      else if quotes_visible (web w (location w)) then Inr ()
      else Inl TimeoutError)"

text \<open>
  \<open>page.goto(url)\<close>: the navigation is attempted, and fails on an address that cannot
  be reached; otherwise the browser is on that address.
\<close>

definition goto :: "string \<Rightarrow> 'c world \<Rightarrow> (error + unit) \<times> 'c world" where
  "goto u w =
     (let w1 = w\<lparr>trace := trace w @ [Goto u]\<rparr>
      in if reachable (web w u) then (Inr (), w1\<lparr>location := u\<rparr>)
         else (Inl PlaywrightError, w1))"

text \<open>\<open>print\<close> of one line.\<close>

definition print_line :: "string \<Rightarrow> 'c world \<Rightarrow> 'c world" where
  "print_line l w = w\<lparr>stdout := stdout w @ [l]\<rparr>"

text \<open>
  One pass through the body of \<open>while True\<close>: \<open>Break\<close> is the \<open>break\<close> of the handler of
  the timeout, \<open>Continue\<close> the end of the body.  A click that raises is not caught, since
  it is in the \<open>else\<close> branch of the \<open>try\<close>; a click that succeeds leaves the browser
  on the address that \<open>self.page.url\<close> then reads.
\<close>

datatype control = Continue | Break

definition loop_body ::
  "scraper \<Rightarrow> 'c world \<Rightarrow> (error + control) \<times> scraper \<times> 'c world" where
  "loop_body s w =
     (if \<not> page s then (Inl AttributeError, s, w)
      else
        (case goto (input_url s) w of
           (Inl e, w1) \<Rightarrow> (Inl e, s, w1)
         | (Inr _, w1) \<Rightarrow>
             (let w2 = print_line (''Scraping:  '' @ input_url s) w1
              in case wait_for_quotes s w2 of
                   Inl e \<Rightarrow> (Inl e, s, w2)
                 | Inr _ \<Rightarrow>
                     (case process_page s w2 of
                        (Inl e, w3) \<Rightarrow> (Inl e, s, w3)
                      | (Inr _, w3) \<Rightarrow>
                          (case next_link (web w3 (location w3)) of
                             Missing \<Rightarrow> (Inr Break, s, w3)
                           | Dead \<Rightarrow>
                               (Inl PlaywrightError, s,
                                w3\<lparr>trace := trace w3 @ [Click]\<rparr>)
                           | Leads u \<Rightarrow>
                               (Inr Continue, s\<lparr>input_url := u\<rparr>,
                                w3\<lparr>trace := trace w3 @ [Click], location := u\<rparr>))))))"

text \<open>
  The \<open>while True\<close> loop, with fuel: \<open>None\<close> is a loop that is still running after
  \<open>n\<close> passes, \<open>Some (Inl e)\<close> an exception that leaves it, \<open>Some (Inr ())\<close> the \<open>break\<close>.
\<close>

fun scrape_loop ::
  "nat \<Rightarrow> scraper \<Rightarrow> 'c world \<Rightarrow> (error + unit) option \<times> scraper \<times> 'c world" where
  "scrape_loop 0 s w = (None, s, w)"
| "scrape_loop (Suc n) s w =
     (case loop_body s w of
        (Inl e, s', w') \<Rightarrow> (Some (Inl e), s', w')
      | (Inr Break, s', w') \<Rightarrow> (Some (Inr ()), s', w')
      | (Inr Continue, s', w') \<Rightarrow> scrape_loop n s' w')"

text \<open>
  \<open>scrape\<close>: the proxy string is split only when it is truthy, the session is started,
  the loop runs, and \<open>stop_playwright\<close> is the statement after the loop.
\<close>

definition scrape ::
  "nat \<Rightarrow> scraper \<Rightarrow> 'c world \<Rightarrow> (error + unit) option \<times> scraper \<times> 'c world" where
  "scrape n s w =
     (case (if truthy (proxy_url s) then process_proxy s else (Inr (), s)) of
        (Inl e, s1) \<Rightarrow> (Some (Inl e), s1, w)
      | (Inr _, s1) \<Rightarrow>
          (case start_playwright s1 w of
             (Inl e, s2, w2) \<Rightarrow> (Some (Inl e), s2, w2)
           | (Inr _, s2, w2) \<Rightarrow>
               (case scrape_loop n s2 w2 of
                  (Some (Inr _), s3, w3) \<Rightarrow> (Some (Inr ()), s3, stop_playwright s3 w3)
                | (r, s3, w3) \<Rightarrow> (r, s3, w3))))"

section \<open>The entry point\<close>

definition env_vars :: "string list" where
  "env_vars = [''PROXY'', ''INPUT_URL'', ''OUTPUT_FILE'']"

text \<open>\<open>config[key]\<close> on the dictionary built from \<open>env_vars\<close>.\<close>

definition lookup :: "(string \<times> string option) list \<Rightarrow> string \<Rightarrow> error + string option" where
  "lookup config k = (case map_of config k of None \<Rightarrow> Inl KeyError | Some v \<Rightarrow> Inr v)"

text \<open>
  \<open>main\<close>, on the environment as it is after \<open>load_dotenv()\<close>.  The keyword argument
  \<open>proxy_url\<close> is commented out in the call of the constructor, so it takes its default.
  The result also carries the scraper that was built, when one was.
\<close>

definition main ::
  "nat \<Rightarrow> (string \<Rightarrow> string option) \<Rightarrow> 'c world
     \<Rightarrow> (error + unit) option \<times> scraper option \<times> 'c world" where
  "main n env w =
     (let config = map (\<lambda>var. (var, env var)) env_vars
      in if None \<in> set (map snd config)
         then
           (let missing_vars = map fst (filter (\<lambda>(var, val). val = None) config)
            in (Some (Inr ()), None,
                print_line (''Missing environment variables: '' @ join '', '' missing_vars) w))
         else
           (case (lookup config ''INPUT_URL'', lookup config ''OUTPUT_FILE'') of
              (Inr (Some u), Inr (Some f)) \<Rightarrow>
                (case scrape n (Scraper_init u f None) w of
                   (r, s', w') \<Rightarrow> (r, Some s', w'))
            | _ \<Rightarrow> (Some (Inl KeyError), None, w)))"

section \<open>Notions of the specification\<close>

text \<open>
  A well-formed record container has the three required sub-elements: a text element,
  an author element and a tag container.
\<close>

definition well_formed :: "'c node \<Rightarrow> bool" where
  "well_formed q \<longleftrightarrow>
     find_elem q ''span'' ''text'' \<noteq> None \<and>
     find_elem q ''small'' ''author'' \<noteq> None \<and>
     find_elem q ''div'' ''tags'' \<noteq> None"

text \<open>The record containers of the page the browser is on, in document order.\<close>

definition page_quotes :: "'c world \<Rightarrow> 'c node list" where
  "page_quotes w = find_all (document (web w (location w))) ''div'' ''quote''"

text \<open>The sink: the output file of the scraper.\<close>

definition sink :: "scraper \<Rightarrow> 'c world \<Rightarrow> 'c fnode" where
  "sink s w = fs w (output_file s)"



text \<open>
  What a pass through the loop may change: of the scraper only \<open>input_url\<close>; of the
  world the location, the printed lines, the trace, by navigations and clicks only, and
  the output file, by lines added at its end.
\<close>

definition loop_changes :: "scraper \<Rightarrow> 'c world \<Rightarrow> scraper \<Rightarrow> 'c world \<Rightarrow> bool" where
  "loop_changes s w s' w' \<longleftrightarrow>
     s' = s\<lparr>input_url := input_url s'\<rparr> \<and>
     web w' = web w \<and> can_launch w' = can_launch w \<and>
     (\<exists>evs. trace w' = trace w @ evs \<and> (\<forall>e\<in>set evs. e = Click \<or> (\<exists>u. e = Goto u))) \<and>
     (\<forall>p. p \<noteq> output_file s \<longrightarrow> fs w' p = fs w p) \<and>
     (\<forall>old. fs w (output_file s) = File old \<longrightarrow>
        (\<exists>new. fs w' (output_file s) = File (old @ new)))"

text \<open>
  The state in which \<open>scrape\<close> enters its loop, when the session start succeeded: the
  proxy string, if there is one, was split, and the browser was launched.
\<close>

definition session_start :: "scraper \<Rightarrow> 'c world \<Rightarrow> (scraper \<times> 'c world) option" where
  "session_start s w =
     (case (if truthy (proxy_url s) then process_proxy s else (Inr (), s)) of
        (Inl e, s1) \<Rightarrow> None
      | (Inr _, s1) \<Rightarrow>
          (case start_playwright s1 w of
             (Inl e, s2, w2) \<Rightarrow> None
           | (Inr _, s2, w2) \<Rightarrow> Some (s2, w2)))"

text \<open>
  The state at the start of a pass through the loop after \<open>k\<close> passes that each followed
  a next-page link.
\<close>

fun after_passes :: "nat \<Rightarrow> scraper \<Rightarrow> 'c world \<Rightarrow> (scraper \<times> 'c world) option" where
  "after_passes 0 s w = Some (s, w)"
| "after_passes (Suc k) s w =
     (case loop_body s w of
        (Inr Continue, s', w') \<Rightarrow> after_passes k s' w'
      | _ \<Rightarrow> None)"

text \<open>The world in which a pass waits for the records: navigated to, and announced.\<close>

definition arrive :: "scraper \<Rightarrow> 'c world \<Rightarrow> 'c world" where
  "arrive s w = print_line (''Scraping:  '' @ input_url s) (snd (goto (input_url s) w))"

section \<open>A small site\<close>

text \<open>
  Pages shaped like the site the scraper is written for, over the alphabet of
  characters: address \<open>A\<close> has one record and a link to \<open>B\<close>, which has one record
  without tags and no link.  The other addresses show a record with a one-character
  text and an empty author (\<open>short\<close>), a record without an author between two
  complete ones (\<open>broken\<close>), a link whose click fails (\<open>dead\<close>), an address that
  cannot be reached (\<open>down\<close>), and nothing at all.
\<close>

definition quoted :: "string \<Rightarrow> string" where
  "quoted t = CHR 0x22 # t @ [CHR 0x22]"

definition quote_div :: "string \<Rightarrow> string \<Rightarrow> string list \<Rightarrow> char node" where
  "quote_div t a tgs =
     Elem ''div'' [''quote'']
       [Elem ''span'' [''text''] [Text t],
        Elem ''span'' [] [Text ''by '', Elem ''small'' [''author''] [Text a]],
        Elem ''div'' [''tags'']
          (Text ''Tags: '' # map (\<lambda>tg. Elem ''a'' [''tag''] [Text tg]) tgs)]"

definition headless_div :: "string \<Rightarrow> char node" where
  "headless_div t =
     Elem ''div'' [''quote'']
       [Elem ''span'' [''text''] [Text t], Elem ''div'' [''tags''] []]"

definition site_document :: "char node list \<Rightarrow> char node" where
  "site_document kids = Elem ''[document]'' [] [Elem ''html'' [] [Elem ''body'' [] kids]]"

definition page_A :: "char page_view" where
  "page_A =
     \<lparr>reachable = True, quotes_visible = True,
      document = site_document
        [quote_div (quoted ''It is our choices, Harry'') ''Dumbledore'' [''courage'']],
      next_link = Leads ''B''\<rparr>"

definition page_B :: "char page_view" where
  "page_B =
     \<lparr>reachable = True, quotes_visible = True,
      document = site_document [quote_div (quoted ''Hello world'') ''Anon'' []],
      next_link = Missing\<rparr>"

definition page_short :: "char page_view" where
  "page_short =
     \<lparr>reachable = True, quotes_visible = True,
      document = site_document [quote_div ''x'' [] [''a'', ''b'']],
      next_link = Missing\<rparr>"

definition page_broken :: "char page_view" where
  "page_broken =
     \<lparr>reachable = True, quotes_visible = True,
      document = site_document
        [quote_div (quoted ''one'') ''First'' [],
         headless_div (quoted ''two''),
         quote_div (quoted ''three'') ''Third'' []],
      next_link = Missing\<rparr>"

definition page_dead :: "char page_view" where
  "page_dead =
     \<lparr>reachable = True, quotes_visible = True,
      document = site_document [quote_div (quoted ''last'') ''Nobody'' []],
      next_link = Dead\<rparr>"

definition page_blank :: "char page_view" where
  "page_blank =
     \<lparr>reachable = True, quotes_visible = False,
      document = site_document [],
      next_link = Missing\<rparr>"

definition page_down :: "char page_view" where
  "page_down =
     \<lparr>reachable = False, quotes_visible = False,
      document = site_document [],
      next_link = Missing\<rparr>"

definition site :: "string \<Rightarrow> char page_view" where
  "site u =
     (if u = ''A'' then page_A
      else if u = ''B'' then page_B
      else if u = ''short'' then page_short
      else if u = ''broken'' then page_broken
      else if u = ''dead'' then page_dead
      else if u = ''down'' then page_down
      else page_blank)"

definition fresh_world :: "char world" where
  "fresh_world =
     \<lparr>web = site, fs = (\<lambda>p. NoFile), can_launch = True, rand = 0,
      location = [], trace = [], stdout = []\<rparr>"

text \<open>
  A scraper with an open page, as \<open>start_playwright\<close> leaves it, and the browser on an
  address.
\<close>

definition started :: "string \<Rightarrow> scraper" where
  "started u = (Scraper_init u ''out.jsonl'' None)
     \<lparr>browser := True, ctx := True, page := True, playwright := True\<rparr>"

definition world_at :: "string \<Rightarrow> char world" where
  "world_at u = fresh_world\<lparr>location := u\<rparr>"

text \<open>A world whose output file already holds a line of an earlier run.\<close>

definition used_world :: "char world" where
  "used_world =
     fresh_world\<lparr>fs := (\<lambda>p. if p = ''out.jsonl''
                           then File [\<lparr>q_text = ''old'', q_by = ''Earlier'', q_tags = []\<rparr>]
                           else NoFile)\<rparr>"

text \<open>
  The environments of the entry point: all three variables, no \<open>PROXY\<close>, and nothing
  but \<open>PROXY\<close>.
\<close>

definition env_full :: "string \<Rightarrow> string option" where
  "env_full =
     (\<lambda>v. if v = ''PROXY'' then Some ''user:secret@proxy.example:8080''
          else if v = ''INPUT_URL'' then Some ''A''
          else if v = ''OUTPUT_FILE'' then Some ''out.jsonl''
          else None)"


definition env_only_proxy :: "string \<Rightarrow> string option" where
  "env_only_proxy =
     (\<lambda>v. if v = ''PROXY'' then Some ''user:secret@proxy.example:8080'' else None)"

section \<open>The slice of the text field\<close>

lemma clamp_index_one: "clamp_index 1 n = min 1 n"
  by (simp add: clamp_index_def)

lemma clamp_index_minus_one: "clamp_index (- 1) n = n - 1"
  unfolding clamp_index_def by (cases n) auto

lemma py_slice_inner: "py_slice t 1 (- 1) = take (length t - 2) (drop 1 t)"
  unfolding py_slice_def Let_def clamp_index_one clamp_index_minus_one
  by (cases t) (auto simp add: min_def)

lemma py_slice_strip: "2 \<le> length t \<Longrightarrow> py_slice t 1 (- 1) = butlast (tl t)"
  by (simp add: py_slice_inner butlast_conv_take drop_Suc numeral_2_eq_2)

lemma py_slice_short: "length t \<le> 1 \<Longrightarrow> py_slice t 1 (- 1) = []"
  by (simp add: py_slice_inner)

lemma py_slice_strip_length: "length (py_slice t 1 (- 1)) = length t - 2"
  by (simp add: py_slice_inner)

section \<open>The extraction step\<close>

lemma write_quotes_append:
  "map quote_fields qs1 = map Inr rs \<Longrightarrow>
   write_quotes (qs1 @ qs2) ls = write_quotes qs2 (ls @ rs)"
proof (induction qs1 arbitrary: ls rs)
  case Nil
  then show ?case by simp
next
  case (Cons q qs1)
  then obtain r rs' where rs: "rs = r # rs'" "quote_fields q = Inr r"
    "map quote_fields qs1 = map Inr rs'"
    by (cases rs) auto
  from Cons.IH[OF rs(3), of "ls @ [r]"] rs(1,2) show ?case by simp
qed

lemma write_quotes_ok:
  "map quote_fields qs = map Inr rs \<Longrightarrow> write_quotes qs ls = (Inr (), ls @ rs)"
  using write_quotes_append[of qs rs "[]" ls] by simp

lemma write_quotes_fail:
  "map quote_fields qs1 = map Inr rs \<Longrightarrow> quote_fields q = Inl e \<Longrightarrow>
   write_quotes (qs1 @ q # qs2) ls = (Inl e, ls @ rs)"
  by (simp add: write_quotes_append)

lemma write_quotes_extends: "\<exists>new. snd (write_quotes qs ls) = ls @ new"
proof (induction qs arbitrary: ls)
  case Nil
  then show ?case by simp
next
  case (Cons q qs)
  show ?case
  proof (cases "quote_fields q")
    case (Inl e)
    then show ?thesis by simp
  next
    case (Inr r)
    from Cons.IH[of "ls @ [r]"] obtain new
      where "snd (write_quotes qs (ls @ [r])) = ls @ [r] @ new" by auto
    with Inr show ?thesis by simp
  qed
qed

lemma parsed_prefix:
  "\<forall>j<n. \<exists>r. quote_fields (qs ! j) = Inr r \<Longrightarrow> n \<le> length qs \<Longrightarrow>
   \<exists>rs. map quote_fields (take n qs) = map Inr rs"
proof (induction n)
  case 0
  then show ?case by simp
next
  case (Suc n)
  then obtain rs where rs: "map quote_fields (take n qs) = map Inr rs" by auto
  from Suc.prems obtain r where r: "quote_fields (qs ! n) = Inr r" by auto
  have "take (Suc n) qs = take n qs @ [qs ! n]"
    using Suc.prems(2) by (simp add: take_Suc_conv_app_nth)
  then have "map quote_fields (take (Suc n) qs) = map Inr (rs @ [r])"
    using rs r by simp
  then show ?case by blast
qed

lemma write_quotes_at:
  assumes "i < length qs" and "\<forall>j\<le>i. \<exists>r. quote_fields (qs ! j) = Inr r"
  shows "length ls + i < length (snd (write_quotes qs ls)) \<and>
         quote_fields (qs ! i) = Inr (snd (write_quotes qs ls) ! (length ls + i))"
proof -
  from assms obtain rs where rs: "map quote_fields (take (Suc i) qs) = map Inr rs"
    using parsed_prefix[of "Suc i" qs] by (auto simp: less_Suc_eq_le)
  then have len: "length rs = Suc i"
    using assms(1) by (metis length_map length_take min.absorb2 Suc_leI)
  have "quote_fields (take (Suc i) qs ! i) = Inr (rs ! i)"
    using rs len by (metis lessI nth_map length_map)
  then have ri: "quote_fields (qs ! i) = Inr (rs ! i)" by simp
  have "write_quotes qs ls = write_quotes (drop (Suc i) qs) (ls @ rs)"
    using write_quotes_append[OF rs, of "drop (Suc i) qs" ls] by simp
  moreover obtain new where "snd (write_quotes (drop (Suc i) qs) (ls @ rs)) = (ls @ rs) @ new"
    using write_quotes_extends by blast
  ultimately have "snd (write_quotes qs ls) = ls @ rs @ new" by simp
  then show ?thesis using len ri by (simp add: nth_append)
qed

lemma well_formed_fields:
  "well_formed q \<longleftrightarrow> (\<exists>r. quote_fields q = Inr r)"
  by (auto simp add: well_formed_def quote_fields_def split: option.splits)

lemma malformed_fields:
  "\<not> well_formed q \<Longrightarrow> quote_fields q = Inl AttributeError"
  by (auto simp add: well_formed_def quote_fields_def split: option.splits)

lemma quote_fields_text:
  "quote_fields q = Inr r \<Longrightarrow> find_elem q ''span'' ''text'' = Some sp \<Longrightarrow>
   q_text r = py_slice (get_text sp) 1 (- 1)"
  by (auto simp add: quote_fields_def split: option.splits)

lemma quote_fields_by:
  "quote_fields q = Inr r \<Longrightarrow> find_elem q ''small'' ''author'' = Some au \<Longrightarrow>
   q_by r = get_text au"
  by (auto simp add: quote_fields_def split: option.splits)

lemma quote_fields_tags:
  "quote_fields q = Inr r \<Longrightarrow> find_elem q ''div'' ''tags'' = Some tg \<Longrightarrow>
   q_tags r = map get_text (find_all tg ''a'' ''tag'')"
  by (auto simp add: quote_fields_def split: option.splits)

lemma process_page_result:
  "page s \<Longrightarrow> open_append (sink s w) = Inr old \<Longrightarrow>
   process_page s w =
     (fst (write_quotes (page_quotes w) old),
      w\<lparr>fs := (fs w)(output_file s := File (snd (write_quotes (page_quotes w) old)))\<rparr>)"
  by (simp add: process_page_def sink_def page_quotes_def Let_def split: prod.splits)

lemma record_at:
  assumes "page s" and "open_append (sink s w) = Inr old"
    and "i < length (page_quotes w)"
    and "\<forall>j\<le>i. well_formed (page_quotes w ! j)"
  shows "\<exists>ls. sink s (snd (process_page s w)) = File ls \<and>
              length old + i < length ls \<and>
              quote_fields (page_quotes w ! i) = Inr (ls ! (length old + i))"
proof -
  have "\<forall>j\<le>i. \<exists>r. quote_fields (page_quotes w ! j) = Inr r"
    using assms(4) by (simp add: well_formed_fields)
  from write_quotes_at[OF assms(3) this, of old] show ?thesis
    by (simp add: process_page_result[OF assms(1,2)] sink_def)
qed

lemmas site_defs = page_quotes_def find_all_def find_elem_def sink_def world_at_def
  fresh_world_def started_def Scraper_init_def site_def site_document_def quote_div_def
  headless_div_def quoted_def page_A_def page_B_def page_short_def page_broken_def
  page_dead_def page_down_def page_blank_def well_formed_def

lemma all_parsed:
  "\<forall>q\<in>set qs. well_formed q \<Longrightarrow> \<exists>rs. map quote_fields qs = map Inr rs"
  using parsed_prefix[of "length qs" qs] by (simp add: well_formed_fields)

lemma first_malformed:
  assumes "k < length qs" and "\<not> well_formed (qs ! k)"
  shows "\<exists>j rs. j \<le> k \<and> length rs = j \<and>
           map quote_fields (take j qs) = map Inr rs \<and>
           write_quotes qs ls = (Inl AttributeError, ls @ rs) \<and>
           ((\<forall>i<k. well_formed (qs ! i)) \<longrightarrow> j = k)"
proof -
  define j where "j = length (takeWhile well_formed qs)"
  have jk: "j \<le> k"
  proof (rule ccontr)
    assume "\<not> j \<le> k"
    then have "k < length (takeWhile well_formed qs)" by (simp add: j_def)
    then have "takeWhile well_formed qs ! k = qs ! k"
      and "takeWhile well_formed qs ! k \<in> set (takeWhile well_formed qs)"
      by (rule takeWhile_nth, rule nth_mem)
    then have "well_formed (qs ! k)" by (metis set_takeWhileD)
    with assms(2) show False by simp
  qed
  then have jlen: "j < length qs" using assms(1) by simp
  have pre: "take j qs = takeWhile well_formed qs"
    unfolding j_def by (rule takeWhile_eq_take[symmetric])
  then have "\<forall>q\<in>set (take j qs). well_formed q"
    by (metis set_takeWhileD)
  from all_parsed[OF this] obtain rs
    where rs: "map quote_fields (take j qs) = map Inr rs" by blast
  then have len: "length rs = j"
    using jlen by (metis length_map length_take min.absorb2 less_imp_le_nat)
  have "\<not> well_formed (qs ! j)"
    using jlen unfolding j_def by (rule nth_length_takeWhile)
  then have bad: "quote_fields (qs ! j) = Inl AttributeError"
    by (rule malformed_fields)
  have "qs = take j qs @ qs ! j # drop (Suc j) qs"
    using jlen by (rule id_take_nth_drop)
  then have "write_quotes qs ls =
      write_quotes (take j qs @ qs ! j # drop (Suc j) qs) ls" by simp
  also have "\<dots> = (Inl AttributeError, ls @ rs)"
    using rs bad by (rule write_quotes_fail)
  finally have run: "write_quotes qs ls = (Inl AttributeError, ls @ rs)" .
  have "j = k" if "\<forall>i<k. well_formed (qs ! i)"
  proof -
    have "k \<le> length (takeWhile well_formed qs)"
      using that assms(1) by (intro length_takeWhile_less_P_nth) auto
    with jk show ?thesis by (simp add: j_def)
  qed
  with jk len rs run show ?thesis by blast
qed

section \<open>Claims about the extraction step\<close>

text \<open>
  C5.  The text field is the matched text without its first and its last character:
  when the sink can be opened and the containers up to the \<open>i\<close>-th are well formed, the
  line written for the \<open>i\<close>-th container, whose text element has at least two
  characters, stores that text with exactly one character removed at each end.  The
  site's thirteen-character text, wrapped in quote glyphs, is stored as its eleven
  inner characters.
\<close>

theorem C5_text_without_first_and_last:
  assumes "page s" and "open_append (sink s w) = Inr old"
    and "i < length (page_quotes w)"
    and "\<forall>j\<le>i. well_formed (page_quotes w ! j)"
    and "find_elem (page_quotes w ! i) ''span'' ''text'' = Some sp"
    and "2 \<le> length (get_text sp)"
  shows "\<exists>ls. sink s (snd (process_page s w)) = File ls \<and>
              length old + i < length ls \<and>
              q_text (ls ! (length old + i)) = butlast (tl (get_text sp))"
proof -
  from record_at[OF assms(1-4)] obtain ls
    where ls: "sink s (snd (process_page s w)) = File ls" "length old + i < length ls"
      "quote_fields (page_quotes w ! i) = Inr (ls ! (length old + i))"
    by blast
  from quote_fields_text[OF ls(3) assms(5)] py_slice_strip[OF assms(6)]
  have "q_text (ls ! (length old + i)) = butlast (tl (get_text sp))" by simp
  with ls(1,2) show ?thesis by blast
qed

theorem C5_text_without_first_and_last_witness:
  "length (quoted ''Hello world'') = 13 \<and>
   (\<exists>ls. sink (started ''B'') (snd (process_page (started ''B'') (world_at ''B''))) = File ls \<and>
         0 < length ls \<and> q_text (ls ! 0) = ''Hello world'')"
  using C5_text_without_first_and_last[of "started ''B''" "world_at ''B''" "[]" 0
      "Elem ''span'' [''text''] [Text (quoted ''Hello world'')]"]
  by (simp add: site_defs)

text \<open>
  C10.  A text element of zero or one characters does not make the extraction of its
  record fail: the slice is empty, so the record is written with the empty string as its
  text, and on a page whose containers are all well formed the step returns normally.
\<close>

theorem C10_short_text_is_stored_empty:
  assumes "page s" and "open_append (sink s w) = Inr old"
    and "i < length (page_quotes w)"
    and "\<forall>j\<le>i. well_formed (page_quotes w ! j)"
    and "find_elem (page_quotes w ! i) ''span'' ''text'' = Some sp"
    and "length (get_text sp) \<le> 1"
  shows "\<exists>ls. sink s (snd (process_page s w)) = File ls \<and>
              length old + i < length ls \<and>
              quote_fields (page_quotes w ! i) = Inr (ls ! (length old + i)) \<and>
              q_text (ls ! (length old + i)) = [] \<and>
              ((\<forall>q\<in>set (page_quotes w). well_formed q) \<longrightarrow>
                 fst (process_page s w) = Inr ())"
proof -
  from record_at[OF assms(1-4)] obtain ls
    where ls: "sink s (snd (process_page s w)) = File ls" "length old + i < length ls"
      "quote_fields (page_quotes w ! i) = Inr (ls ! (length old + i))"
    by blast
  from quote_fields_text[OF ls(3) assms(5)] py_slice_short[OF assms(6)]
  have empty: "q_text (ls ! (length old + i)) = []" by simp
  have "fst (process_page s w) = Inr ()" if "\<forall>q\<in>set (page_quotes w). well_formed q"
  proof -
    from all_parsed[OF that] obtain rs
      where "map quote_fields (page_quotes w) = map Inr rs" by blast
    then show ?thesis
      by (simp add: process_page_result[OF assms(1,2)] write_quotes_ok)
  qed
  with ls empty show ?thesis by blast
qed

theorem C10_short_text_is_stored_empty_witness:
  "\<exists>ls. sink (started ''short'') (snd (process_page (started ''short'') (world_at ''short''))) = File ls \<and>
        0 < length ls \<and> q_text (ls ! 0) = [] \<and>
        fst (process_page (started ''short'') (world_at ''short'')) = Inr ()"
  using C10_short_text_is_stored_empty[of "started ''short''" "world_at ''short''" "[]" 0
      "Elem ''span'' [''text''] [Text ''x'']"]
  by (auto simp add: site_defs)

text \<open>
  C7.  The tags field of the line written for a container is the list of the texts of
  the \<open>a.tag\<close> elements found below its tag container, in the order of the document
  (the pre-order of \<open>descendants\<close>); when there is none, the field is the empty list,
  and the line is written all the same.
\<close>

theorem C7_tags_in_document_order:
  assumes "page s" and "open_append (sink s w) = Inr old"
    and "i < length (page_quotes w)"
    and "\<forall>j\<le>i. well_formed (page_quotes w ! j)"
    and "find_elem (page_quotes w ! i) ''div'' ''tags'' = Some tg"
  shows "\<exists>ls. sink s (snd (process_page s w)) = File ls \<and>
              length old + i < length ls \<and>
              q_tags (ls ! (length old + i)) =
                map get_text (filter (matches ''a'' ''tag'') (descendants tg)) \<and>
              (filter (matches ''a'' ''tag'') (descendants tg) = [] \<longrightarrow>
                 q_tags (ls ! (length old + i)) = [])"
proof -
  from record_at[OF assms(1-4)] obtain ls
    where ls: "sink s (snd (process_page s w)) = File ls" "length old + i < length ls"
      "quote_fields (page_quotes w ! i) = Inr (ls ! (length old + i))"
    by blast
  from quote_fields_tags[OF ls(3) assms(5)]
  have "q_tags (ls ! (length old + i)) =
          map get_text (filter (matches ''a'' ''tag'') (descendants tg))"
    by (simp add: find_all_def)
  with ls(1,2) show ?thesis by auto
qed

theorem C7_tags_in_document_order_witness:
  "(\<exists>ls. sink (started ''B'') (snd (process_page (started ''B'') (world_at ''B''))) = File ls \<and>
         0 < length ls \<and> q_tags (ls ! 0) = []) \<and>
   (\<exists>ls. sink (started ''short'') (snd (process_page (started ''short'') (world_at ''short''))) = File ls \<and>
         0 < length ls \<and> q_tags (ls ! 0) = [''a'', ''b''])"
  using C7_tags_in_document_order[of "started ''B''" "world_at ''B''" "[]" 0
      "Elem ''div'' [''tags''] [Text ''Tags: '']"]
    C7_tags_in_document_order[of "started ''short''" "world_at ''short''" "[]" 0
      "Elem ''div'' [''tags''] [Text ''Tags: '', Elem ''a'' [''tag''] [Text ''a''],
         Elem ''a'' [''tag''] [Text ''b'']]"]
  by (auto simp add: site_defs)

text \<open>
  C3, as stated, fails: a container with the three sub-elements whose text element has
  one character and whose author element is empty is written with an empty text and an
  empty author.
\<close>

theorem C3_nonempty_fields_counterexample:
  "page (started ''short'') \<and>
   open_append (sink (started ''short'') (world_at ''short'')) = Inr [] \<and>
   map well_formed (page_quotes (world_at ''short'')) = [True] \<and>
   fst (process_page (started ''short'') (world_at ''short'')) = Inr () \<and>
   sink (started ''short'') (snd (process_page (started ''short'') (world_at ''short''))) =
     File [\<lparr>q_text = [], q_by = [], q_tags = [''a'', ''b'']\<rparr>]"
  by (simp add: site_defs process_page_def quote_fields_def py_slice_def clamp_index_def)

text \<open>
  C3, amended.  On a page whose \<open>N\<close> record containers are all well formed, one call of
  the extraction step with an open page and a sink that can be opened returns normally
  and appends exactly \<open>N\<close> records, one for each container in document order.  The text of
  a record is non-empty exactly when the matched text element has at least three
  characters, its author exactly when the text of the author element is non-empty, and
  its tags have a length of zero or more.
\<close>

theorem C3_one_record_per_container:
  assumes "page s" and "open_append (sink s w) = Inr old"
    and "\<forall>q\<in>set (page_quotes w). well_formed q"
  shows "\<exists>rs. process_page s w =
                (Inr (), w\<lparr>fs := (fs w)(output_file s := File (old @ rs))\<rparr>) \<and>
              length rs = length (page_quotes w) \<and>
              map quote_fields (page_quotes w) = map Inr rs \<and>
              (\<forall>i<length rs. \<forall>sp au.
                 find_elem (page_quotes w ! i) ''span'' ''text'' = Some sp \<longrightarrow>
                 find_elem (page_quotes w ! i) ''small'' ''author'' = Some au \<longrightarrow>
                   (q_text (rs ! i) \<noteq> [] \<longleftrightarrow> 3 \<le> length (get_text sp)) \<and>
                   (q_by (rs ! i) \<noteq> [] \<longleftrightarrow> get_text au \<noteq> []) \<and>
                   0 \<le> length (q_tags (rs ! i)))"
proof -
  from all_parsed[OF assms(3)] obtain rs
    where rs: "map quote_fields (page_quotes w) = map Inr rs" by blast
  then have len: "length rs = length (page_quotes w)"
    by (metis length_map)
  have run: "process_page s w =
      (Inr (), w\<lparr>fs := (fs w)(output_file s := File (old @ rs))\<rparr>)"
    using rs by (simp add: process_page_result[OF assms(1,2)] write_quotes_ok)
  have fields: "(q_text (rs ! i) \<noteq> [] \<longleftrightarrow> 3 \<le> length (get_text sp)) \<and>
      (q_by (rs ! i) \<noteq> [] \<longleftrightarrow> get_text au \<noteq> []) \<and> 0 \<le> length (q_tags (rs ! i))"
    if "i < length rs"
      and sp: "find_elem (page_quotes w ! i) ''span'' ''text'' = Some sp"
      and au: "find_elem (page_quotes w ! i) ''small'' ''author'' = Some au"
    for i sp au
  proof -
    have r: "quote_fields (page_quotes w ! i) = Inr (rs ! i)"
      using rs that(1) len by (metis nth_map)
    have "length (q_text (rs ! i)) = length (get_text sp) - 2"
      using quote_fields_text[OF r sp] by (simp add: py_slice_strip_length)
    then have "q_text (rs ! i) \<noteq> [] \<longleftrightarrow> 3 \<le> length (get_text sp)"
      by (metis length_greater_0_conv zero_less_diff Suc_le_eq eval_nat_numeral(3) Suc_1)
    then show ?thesis using quote_fields_by[OF r au] by simp
  qed
  from run len rs fields show ?thesis by blast
qed

theorem C3_one_record_per_container_witness:
  "\<exists>rs. process_page (started ''A'') (world_at ''A'') =
          (Inr (), (world_at ''A'')\<lparr>fs := (fs (world_at ''A''))(''out.jsonl'' := File rs)\<rparr>) \<and>
        length rs = 1 \<and>
        q_text (rs ! 0) \<noteq> [] \<and> q_by (rs ! 0) \<noteq> []"
  using C3_one_record_per_container[of "started ''A''" "world_at ''A''" "[]"]
  by (auto simp add: site_defs)

text \<open>
  C4.  When the \<open>k\<close>-th container of the page lacks one of the three sub-elements, the
  extraction step raises; the sink then holds, after its old lines, exactly the records
  of the first \<open>j\<close> containers for some \<open>j \<le> k\<close>, so nothing of the \<open>k\<close>-th or of a later
  container is written; and when the containers before the \<open>k\<close>-th are well formed,
  \<open>j = k\<close>: each of them has its record in the sink.
\<close>

theorem C4_malformed_container_aborts_page:
  assumes "page s" and "open_append (sink s w) = Inr old"
    and "k < length (page_quotes w)"
    and "\<not> well_formed (page_quotes w ! k)"
  shows "fst (process_page s w) = Inl AttributeError \<and>
         (\<exists>j rs. j \<le> k \<and> length rs = j \<and>
            map quote_fields (take j (page_quotes w)) = map Inr rs \<and>
            sink s (snd (process_page s w)) = File (old @ rs) \<and>
            ((\<forall>i<k. well_formed (page_quotes w ! i)) \<longrightarrow> j = k))"
proof -
  from first_malformed[OF assms(3,4), of old] obtain j rs
    where "j \<le> k" "length rs = j"
      "map quote_fields (take j (page_quotes w)) = map Inr rs"
      "write_quotes (page_quotes w) old = (Inl AttributeError, old @ rs)"
      "(\<forall>i<k. well_formed (page_quotes w ! i)) \<longrightarrow> j = k"
    by blast
  then show ?thesis
    by (auto simp add: process_page_result[OF assms(1,2)] sink_def)
qed

theorem C4_malformed_container_aborts_page_witness:
  "fst (process_page (started ''broken'') (world_at ''broken'')) = Inl AttributeError \<and>
   sink (started ''broken'') (snd (process_page (started ''broken'') (world_at ''broken''))) =
     File [\<lparr>q_text = ''one'', q_by = ''First'', q_tags = []\<rparr>]"
  using C4_malformed_container_aborts_page[of "started ''broken''" "world_at ''broken''" "[]" 1]
  by (auto simp add: site_defs quote_fields_def py_slice_def clamp_index_def)

section \<open>What the loop changes\<close>

lemma loop_changes_refl: "loop_changes s w s w"
  by (simp add: loop_changes_def)

lemma loop_changes_trans:
  assumes "loop_changes s w s1 w1" and "loop_changes s1 w1 s2 w2"
  shows "loop_changes s w s2 w2"
proof -
  from assms(1) obtain evs1 where 1:
    "s1 = s\<lparr>input_url := input_url s1\<rparr>" "web w1 = web w" "can_launch w1 = can_launch w"
    "trace w1 = trace w @ evs1" "\<forall>e\<in>set evs1. e = Click \<or> (\<exists>u. e = Goto u)"
    "\<forall>p. p \<noteq> output_file s \<longrightarrow> fs w1 p = fs w p"
    "\<forall>old. fs w (output_file s) = File old \<longrightarrow>
        (\<exists>new. fs w1 (output_file s) = File (old @ new))"
    unfolding loop_changes_def by blast
  from 1(1) have out: "output_file s1 = output_file s"
    by (metis scraper.select_convs(2) scraper.surjective scraper.update_convs(1))
  from assms(2) obtain evs2 where 2:
    "s2 = s1\<lparr>input_url := input_url s2\<rparr>" "web w2 = web w1" "can_launch w2 = can_launch w1"
    "trace w2 = trace w1 @ evs2" "\<forall>e\<in>set evs2. e = Click \<or> (\<exists>u. e = Goto u)"
    "\<forall>p. p \<noteq> output_file s \<longrightarrow> fs w2 p = fs w1 p"
    "\<forall>old. fs w1 (output_file s) = File old \<longrightarrow>
        (\<exists>new. fs w2 (output_file s) = File (old @ new))"
    unfolding loop_changes_def out by blast
  have a: "s2 = s\<lparr>input_url := input_url s2\<rparr>"
    using 1(1) 2(1) by (metis scraper.update_convs(1) scraper.surjective)
  have b: "trace w2 = trace w @ (evs1 @ evs2)"
    "\<forall>e\<in>set (evs1 @ evs2). e = Click \<or> (\<exists>u. e = Goto u)"
    using 1(4,5) 2(4,5) by auto
  have c: "\<exists>new. fs w2 (output_file s) = File (old @ new)"
    if "fs w (output_file s) = File old" for old
  proof -
    from 1(7) that obtain n1 where "fs w1 (output_file s) = File (old @ n1)" by blast
    with 2(7) obtain n2 where "fs w2 (output_file s) = File ((old @ n1) @ n2)" by blast
    then show ?thesis by auto
  qed
  show ?thesis
    unfolding loop_changes_def
    using a b c 1(2,3,6) 2(2,3,6) by (intro conjI) (simp, simp, simp, blast, simp, blast)
qed

lemma goto_changes: "loop_changes s w s (snd (goto u w))"
  by (simp add: loop_changes_def goto_def Let_def)

lemma print_line_changes: "loop_changes s w s (print_line l w)"
  by (simp add: loop_changes_def print_line_def)

lemma process_page_changes: "loop_changes s w s (snd (process_page s w))"
proof (cases "page s")
  case False
  then show ?thesis by (simp add: process_page_def loop_changes_def)
next
  case True
  show ?thesis
  proof (cases "open_append (fs w (output_file s))")
    case (Inl e)
    then show ?thesis using True by (simp add: process_page_def loop_changes_def)
  next
    case (Inr old)
    obtain new where new: "snd (write_quotes (page_quotes w) old) = old @ new"
      using write_quotes_extends by blast
    have "open_append (sink s w) = Inr old" using Inr by (simp add: sink_def)
    from process_page_result[OF True this] new Inr show ?thesis
      by (cases "fs w (output_file s)") (auto simp add: loop_changes_def)
  qed
qed

lemma click_changes:
  "loop_changes s w (s\<lparr>input_url := u\<rparr>) (w\<lparr>trace := trace w @ [Click], location := v\<rparr>)"
  "loop_changes s w s (w\<lparr>trace := trace w @ [Click]\<rparr>)"
  by (simp_all add: loop_changes_def)

lemma loop_body_changes:
  assumes "loop_body s w = (r, s', w')"
  shows "loop_changes s w s' w'"
proof (cases "page s")
  case False
  with assms show ?thesis by (auto simp add: loop_body_def loop_changes_refl)
next
  case True
  obtain g w1 where g: "goto (input_url s) w = (g, w1)" by (cases "goto (input_url s) w")
  have c1: "loop_changes s w s w1" using goto_changes[of s w "input_url s"] g by simp
  define w2 where "w2 = print_line (''Scraping:  '' @ input_url s) w1"
  have c2: "loop_changes s w s w2"
    unfolding w2_def using c1 print_line_changes by (rule loop_changes_trans)
  obtain p w3 where p: "process_page s w2 = (p, w3)" by (cases "process_page s w2")
  have c3: "loop_changes s w s w3"
    using c2 process_page_changes[of s w2] p by (auto intro: loop_changes_trans)
  show ?thesis
  proof (cases g)
    case (Inl e)
    with assms True g c1 show ?thesis by (simp add: loop_body_def)
  next
    case (Inr u)
    note gok = this
    show ?thesis
    proof (cases "wait_for_quotes s w2")
      case (Inl e)
      with assms True g gok c2 show ?thesis by (auto simp add: loop_body_def w2_def)
    next
      case (Inr u2)
      note wok = this
      show ?thesis
      proof (cases p)
        case (Inl e)
        with assms True g gok wok p c3 show ?thesis
          by (auto simp add: loop_body_def w2_def)
      next
        case (Inr u3)
        with assms True g gok wok p
        have "(case next_link (web w3 (location w3)) of
                 Missing \<Rightarrow> (Inr Break, s, w3)
               | Dead \<Rightarrow> (Inl PlaywrightError, s, w3\<lparr>trace := trace w3 @ [Click]\<rparr>)
               | Leads u \<Rightarrow> (Inr Continue, s\<lparr>input_url := u\<rparr>,
                   w3\<lparr>trace := trace w3 @ [Click], location := u\<rparr>)) = (r, s', w')"
          by (auto simp add: loop_body_def w2_def)
        then show ?thesis
          using c3 click_changes[of s w3]
          by (cases "next_link (web w3 (location w3))") (auto intro: loop_changes_trans)
      qed
    qed
  qed
qed

lemma scrape_loop_changes:
  "scrape_loop n s w = (r, s', w') \<Longrightarrow> loop_changes s w s' w'"
proof (induction n arbitrary: s w)
  case 0
  then show ?case by (simp add: loop_changes_refl)
next
  case (Suc n)
  obtain b s1 w1 where b: "loop_body s w = (b, s1, w1)" by (cases "loop_body s w")
  then have c: "loop_changes s w s1 w1" by (rule loop_body_changes)
  show ?case
  proof (cases b)
    case (Inl e)
    with Suc.prems b c show ?thesis by simp
  next
    case (Inr ctl)
    show ?thesis
    proof (cases ctl)
      case Continue
      with Suc.prems b Inr have "scrape_loop n s1 w1 = (r, s', w')" by simp
      from c Suc.IH[OF this] show ?thesis by (rule loop_changes_trans)
    next
      case Break
      with Suc.prems b c Inr show ?thesis by simp
    qed
  qed
qed

section \<open>The session around the loop\<close>

lemma start_playwright_trace:
  "start_playwright s w = (r, s', w') \<Longrightarrow>
   (r = Inr () \<longrightarrow> browser s' \<and> playwright s' \<and> page s') \<and>
   output_file s' = output_file s \<and> fs w' = fs w \<and>
   (\<exists>evs. trace w' = trace w @ evs \<and> BrowserClose \<notin> set evs \<and> PlaywrightStop \<notin> set evs \<and>
      (\<forall>a. Launch a \<in> set evs \<longrightarrow> a = browser_args s))"
  by (auto simp add: start_playwright_def Let_def handle_captcha_def handle_cookies_def
      split: if_splits)

lemma loop_changes_session:
  assumes "loop_changes s w s' w'"
  shows "browser s' = browser s" and "playwright s' = playwright s"
    and "output_file s' = output_file s"
    and "\<exists>evs. trace w' = trace w @ evs \<and> BrowserClose \<notin> set evs \<and> PlaywrightStop \<notin> set evs \<and>
           (\<forall>a. Launch a \<notin> set evs)"
proof -
  from assms have s': "s' = s\<lparr>input_url := input_url s'\<rparr>" by (simp add: loop_changes_def)
  show "browser s' = browser s"
    by (metis s' scraper.select_convs(8) scraper.surjective scraper.update_convs(1))
  show "playwright s' = playwright s"
    by (metis s' scraper.select_convs(11) scraper.surjective scraper.update_convs(1))
  show "output_file s' = output_file s"
    by (metis s' scraper.select_convs(2) scraper.surjective scraper.update_convs(1))
  from assms obtain evs where "trace w' = trace w @ evs"
    "\<forall>e\<in>set evs. e = Click \<or> (\<exists>u. e = Goto u)"
    unfolding loop_changes_def by blast
  then show "\<exists>evs. trace w' = trace w @ evs \<and> BrowserClose \<notin> set evs \<and>
      PlaywrightStop \<notin> set evs \<and> (\<forall>a. Launch a \<notin> set evs)"
    by (intro exI[of _ evs]) auto
qed



section \<open>Runs on the small site\<close>



lemma run_A_trace:
  "trace (snd (snd (scrape 2 (Scraper_init ''A'' ''out.jsonl'' None) fresh_world))) =
     [PlaywrightStart, Launch None, NewContext (USER_AGENTS ! 0), NewPage, Goto ''A'', Click,
      Goto ''B'', BrowserClose, PlaywrightStop]"
  by code_simp

lemma run_A_file:
  "fs (snd (snd (scrape 2 (Scraper_init ''A'' ''out.jsonl'' None) fresh_world))) ''out.jsonl'' =
     File [\<lparr>q_text = ''It is our choices, Harry'', q_by = ''Dumbledore'', q_tags = [''courage'']\<rparr>,
           \<lparr>q_text = ''Hello world'', q_by = ''Anon'', q_tags = []\<rparr>]"
  by code_simp







section \<open>Claims about the run\<close>




lemma loop_body_paginate:
  assumes "page s"
    and "goto (input_url s) w = (Inr (), w1)"
    and "wait_for_quotes s (print_line (''Scraping:  '' @ input_url s) w1) = Inr ()"
    and "process_page s (print_line (''Scraping:  '' @ input_url s) w1) = (Inr (), w3)"
  shows "loop_body s w =
     (case next_link (web w3 (location w3)) of
        Missing \<Rightarrow> (Inr Break, s, w3)
      | Dead \<Rightarrow> (Inl PlaywrightError, s, w3\<lparr>trace := trace w3 @ [Click]\<rparr>)
      | Leads u \<Rightarrow> (Inr Continue, s\<lparr>input_url := u\<rparr>,
                   w3\<lparr>trace := trace w3 @ [Click], location := u\<rparr>))"
  unfolding loop_body_def Let_def using assms by simp

lemma loop_body_starts_with_goto:
  "page s \<Longrightarrow> \<exists>evs. trace (snd (snd (loop_body s w))) = trace w @ Goto (input_url s) # evs"
proof -
  assume pg: "page s"
  obtain g w1 where g: "goto (input_url s) w = (g, w1)" by (cases "goto (input_url s) w")
  then have t1: "trace w1 = trace w @ [Goto (input_url s)]"
    by (auto simp add: goto_def Let_def split: if_splits)
  obtain r s' w' where r: "loop_body s w = (r, s', w')" by (cases "loop_body s w")
  show ?thesis
  proof (cases g)
    case (Inl e)
    with pg g t1 show ?thesis by (simp add: loop_body_def)
  next
    case (Inr u)
    define w2 where "w2 = print_line (''Scraping:  '' @ input_url s) w1"
    have t2: "trace w2 = trace w1" by (simp add: w2_def print_line_def)
    show ?thesis
    proof (cases "wait_for_quotes s w2")
      case (Inl e)
      with pg g Inr t1 t2 show ?thesis by (auto simp add: loop_body_def w2_def)
    next
      case wok: (Inr u2)
      obtain p w3 where p: "process_page s w2 = (p, w3)" by (cases "process_page s w2")
      from process_page_changes[of s w2] p obtain evs
        where "trace w3 = trace w2 @ evs" by (auto simp add: loop_changes_def)
      with t1 t2 have t3: "trace w3 = trace w @ Goto (input_url s) # evs" by simp
      show ?thesis
      proof (cases p)
        case (Inl e)
        with pg g Inr wok p t3 show ?thesis by (auto simp add: loop_body_def w2_def)
      next
        case pok: (Inr u3)
        with pg g Inr wok p t3 show ?thesis
          by (cases "next_link (web w3 (location w3))")
             (auto simp add: loop_body_def w2_def)
      qed
    qed
  qed
qed

lemma scrape_loop_starts_with_goto:
  assumes "page s"
  shows "\<exists>evs. trace (snd (snd (scrape_loop (Suc n) s w))) = trace w @ Goto (input_url s) # evs"
proof -
  obtain b s1 w1 where b: "loop_body s w = (b, s1, w1)" by (cases "loop_body s w")
  from loop_body_starts_with_goto[OF assms, of w] b obtain evs
    where t1: "trace w1 = trace w @ Goto (input_url s) # evs" by auto
  show ?thesis
  proof (cases b)
    case (Inl e)
    with b t1 show ?thesis by simp
  next
    case (Inr ctl)
    show ?thesis
    proof (cases ctl)
      case Break
      with b Inr t1 show ?thesis by simp
    next
      case Continue
      obtain r s2 w2 where l: "scrape_loop n s1 w1 = (r, s2, w2)"
        by (cases "scrape_loop n s1 w1")
      from scrape_loop_changes[OF l] obtain evs2 where "trace w2 = trace w1 @ evs2"
        by (auto simp add: loop_changes_def)
      with b Inr Continue l t1 show ?thesis by simp
    qed
  qed
qed

lemma started_page: "page (started u)" and started_url: "input_url (started u) = u"
  by (simp_all add: started_def Scraper_init_def)

lemma visit_B:
  "fst (goto ''B'' (world_at ''about:blank'')) = Inr ()"
  "wait_for_quotes (started ''B'')
     (print_line (''Scraping:  '' @ ''B'') (snd (goto ''B'' (world_at ''about:blank'')))) = Inr ()"
  "fst (process_page (started ''B'')
     (print_line (''Scraping:  '' @ ''B'') (snd (goto ''B'' (world_at ''about:blank''))))) = Inr ()"
  "next_link (web
     (snd (process_page (started ''B'')
        (print_line (''Scraping:  '' @ ''B'') (snd (goto ''B'' (world_at ''about:blank''))))))
     (location
       (snd (process_page (started ''B'')
          (print_line (''Scraping:  '' @ ''B'') (snd (goto ''B'' (world_at ''about:blank'')))))))) =
   Missing"
  by code_simp+

lemma visit_A:
  "fst (goto ''A'' (world_at ''about:blank'')) = Inr ()"
  "wait_for_quotes (started ''A'')
     (print_line (''Scraping:  '' @ ''A'') (snd (goto ''A'' (world_at ''about:blank'')))) = Inr ()"
  "fst (process_page (started ''A'')
     (print_line (''Scraping:  '' @ ''A'') (snd (goto ''A'' (world_at ''about:blank''))))) = Inr ()"
  "next_link (web
     (snd (process_page (started ''A'')
        (print_line (''Scraping:  '' @ ''A'') (snd (goto ''A'' (world_at ''about:blank''))))))
     (location
       (snd (process_page (started ''A'')
          (print_line (''Scraping:  '' @ ''A'') (snd (goto ''A'' (world_at ''about:blank'')))))))) =
   Leads ''B''"
  "trace (snd (process_page (started ''A'')
     (print_line (''Scraping:  '' @ ''A'') (snd (goto ''A'' (world_at ''about:blank'')))))) =
   [Goto ''A'']"
  by code_simp+

text \<open>
  C6.  When a pass through the loop has reached the pagination step (the page was
  reached, a record showed up, the extraction returned), then: if no next-page element
  shows up within the timeout, the loop ends normally, with \<open>Some (Inr ())\<close> and not an
  exception; if one shows up and the click leads to an address, the loop goes on with
  \<open>input_url\<close> set to the location of the browser after the click, and the first thing
  the next pass does is to navigate to that address.
\<close>

theorem C6_pagination_step:
  assumes "page s"
    and "goto (input_url s) w = (Inr (), w1)"
    and "wait_for_quotes s (print_line (''Scraping:  '' @ input_url s) w1) = Inr ()"
    and "process_page s (print_line (''Scraping:  '' @ input_url s) w1) = (Inr (), w3)"
  shows "(next_link (web w3 (location w3)) = Missing \<longrightarrow>
            scrape_loop (Suc n) s w = (Some (Inr ()), s, w3)) \<and>
         (\<forall>u. next_link (web w3 (location w3)) = Leads u \<longrightarrow>
            scrape_loop (Suc n) s w =
              scrape_loop n (s\<lparr>input_url := u\<rparr>)
                (w3\<lparr>trace := trace w3 @ [Click], location := u\<rparr>) \<and>
            (\<exists>evs. trace (snd (snd (scrape_loop (Suc (Suc n)) s w))) =
                     trace w3 @ [Click, Goto u] @ evs))"
proof (intro conjI allI impI)
  assume "next_link (web w3 (location w3)) = Missing"
  then show "scrape_loop (Suc n) s w = (Some (Inr ()), s, w3)"
    by (simp add: loop_body_paginate[OF assms])
next
  fix u
  assume u: "next_link (web w3 (location w3)) = Leads u"
  then show step: "scrape_loop (Suc n) s w =
      scrape_loop n (s\<lparr>input_url := u\<rparr>) (w3\<lparr>trace := trace w3 @ [Click], location := u\<rparr>)"
    for n
    by (simp add: loop_body_paginate[OF assms])
  have "page (s\<lparr>input_url := u\<rparr>)" using assms(1) by simp
  from scrape_loop_starts_with_goto[OF this, of n "w3\<lparr>trace := trace w3 @ [Click], location := u\<rparr>"]
  show "\<exists>evs. trace (snd (snd (scrape_loop (Suc (Suc n)) s w))) =
                     trace w3 @ [Click, Goto u] @ evs"
    unfolding step[of "Suc n"] by (simp del: scrape_loop.simps)
qed


theorem C6_pagination_step_witness:
  "fst (scrape_loop (Suc 0) (started ''B'') (world_at ''about:blank'')) = Some (Inr ()) \<and>
   (\<exists>evs. trace (snd (snd (scrape_loop (Suc (Suc 0)) (started ''A'') (world_at ''about:blank'')))) =
      [Goto ''A'', Click, Goto ''B''] @ evs)"
proof -
  have "fst (scrape_loop (Suc 0) (started ''B'') (world_at ''about:blank'')) = Some (Inr ())"
    using C6_pagination_step[of "started ''B''" "world_at ''about:blank''"
        "snd (goto ''B'' (world_at ''about:blank''))"
        "snd (process_page (started ''B'')
           (print_line (''Scraping:  '' @ ''B'') (snd (goto ''B'' (world_at ''about:blank'')))))" 0]
      visit_B
    by (simp add: started_page started_url prod_eq_iff del: scrape_loop.simps)
  moreover
  have "\<exists>evs. trace (snd (snd (scrape_loop (Suc (Suc 0)) (started ''A'') (world_at ''about:blank'')))) =
      [Goto ''A'', Click, Goto ''B''] @ evs"
    using C6_pagination_step[of "started ''A''" "world_at ''about:blank''"
        "snd (goto ''A'' (world_at ''about:blank''))"
        "snd (process_page (started ''A'')
           (print_line (''Scraping:  '' @ ''A'') (snd (goto ''A'' (world_at ''about:blank'')))))" 0]
      visit_A
    by (simp add: started_page started_url prod_eq_iff del: scrape_loop.simps)
  ultimately show ?thesis by blast
qed

section \<open>The output file\<close>

lemma loop_changes_file:
  assumes "loop_changes s w s' w'" and "fs w p = File old"
  shows "\<exists>new. fs w' p = File (old @ new)"
proof (cases "p = output_file s")
  case True
  with assms show ?thesis by (simp add: loop_changes_def)
next
  case False
  with assms have "fs w' p = File (old @ [])" by (simp add: loop_changes_def)
  then show ?thesis by blast
qed

lemma scrape_file:
  assumes "fs w p = File old"
  shows "\<exists>new. fs (snd (snd (scrape n s w))) p = File (old @ new)"
proof -
  obtain pr s1 where pr: "(if truthy (proxy_url s) then process_proxy s else (Inr (), s)) = (pr, s1)"
    by (cases "if truthy (proxy_url s) then process_proxy s else (Inr (), s)")
  obtain st s2 w2 where st: "start_playwright s1 w = (st, s2, w2)"
    by (cases "start_playwright s1 w")
  obtain r s3 w3 where lp: "scrape_loop n s2 w2 = (r, s3, w3)"
    by (cases "scrape_loop n s2 w2")
  from start_playwright_trace[OF st] have f2: "fs w2 = fs w" by simp
  from loop_changes_file[OF scrape_loop_changes[OF lp], of p old] f2 assms
  obtain new where f3: "fs w3 p = File (old @ new)" by auto
  have f4: "fs (stop_playwright s3 w3) = fs w3" by (simp add: stop_playwright_def Let_def)
  show ?thesis
  proof (cases pr)
    case (Inl e)
    with pr assms show ?thesis by (simp add: scrape_def)
  next
    case pok: (Inr u)
    show ?thesis
    proof (cases st)
      case (Inl e)
      with pr pok st f2 assms show ?thesis by (simp add: scrape_def)
    next
      case (Inr u')
      with pr pok st lp f3 f4 show ?thesis
        by (auto simp add: scrape_def split: option.splits sum.splits)
    qed
  qed
qed

lemma main_cases:
  "main n env w =
     (if env ''PROXY'' = None \<or> env ''INPUT_URL'' = None \<or> env ''OUTPUT_FILE'' = None
      then (Some (Inr ()), None,
            print_line (''Missing environment variables: '' @
              join '', '' (filter (\<lambda>v. env v = None) env_vars)) w)
      else (case scrape n (Scraper_init (the (env ''INPUT_URL'')) (the (env ''OUTPUT_FILE'')) None) w of
              (r, s', w') \<Rightarrow> (r, Some s', w')))"
proof -
  have "map fst (filter (\<lambda>(var, val). val = None) (map (\<lambda>var. (var, env var)) vs)) =
        filter (\<lambda>v. env v = None) vs" for vs
    by (induction vs) auto
  then show ?thesis
    by (auto simp add: main_def Let_def env_vars_def lookup_def)
qed

lemma main_missing:
  "env ''PROXY'' = None \<or> env ''INPUT_URL'' = None \<or> env ''OUTPUT_FILE'' = None \<Longrightarrow>
   main n env w =
     (Some (Inr ()), None,
      print_line (''Missing environment variables: '' @
        join '', '' (filter (\<lambda>v. env v = None) env_vars)) w)"
  by (simp only: main_cases if_True)

lemma main_starts:
  "env ''PROXY'' = Some p \<Longrightarrow> env ''INPUT_URL'' = Some u \<Longrightarrow> env ''OUTPUT_FILE'' = Some f \<Longrightarrow>
   main n env w = (case scrape n (Scraper_init u f None) w of (r, s', w') \<Rightarrow> (r, Some s', w'))"
  by (simp add: main_cases)

lemma main_file:
  assumes "fs w p = File old"
  shows "\<exists>new. fs (snd (snd (main n env w))) p = File (old @ new)"
proof (cases "env ''PROXY'' = None \<or> env ''INPUT_URL'' = None \<or> env ''OUTPUT_FILE'' = None")
  case True
  have "fs (snd (snd (main n env w))) p = File (old @ [])"
    unfolding main_missing[OF True] using assms by (simp add: print_line_def)
  then show ?thesis by blast
next
  case False
  then obtain x u f where "env ''PROXY'' = Some x" "env ''INPUT_URL'' = Some u"
    "env ''OUTPUT_FILE'' = Some f" by auto
  then have "snd (snd (main n env w)) = snd (snd (scrape n (Scraper_init u f None) w))"
    by (simp add: main_starts case_prod_beta)
  then show ?thesis
    using scrape_file[OF assms] by simp
qed

lemma process_page_file:
  assumes "fs w p = File old"
  shows "\<exists>new. fs (snd (process_page s w)) p = File (old @ new)"
  using loop_changes_file[OF process_page_changes assms] .

lemma process_page_again:
  assumes "process_page s w = (Inr (), w1)"
    and "sink s w = File old" and "sink s w1 = File (old @ rs)"
  shows "sink s (snd (process_page s w1)) = File (old @ rs @ rs)"
proof -
  have pg: "page s" using assms(1) by (auto simp add: process_page_def split: if_splits)
  have op: "open_append (sink s w) = Inr old" using assms(2) by simp
  from process_page_result[OF pg op] assms(1,3)
  have run: "write_quotes (page_quotes w) old = (Inr (), old @ rs)"
    and w1: "w1 = w\<lparr>fs := (fs w)(output_file s := File (old @ rs))\<rparr>"
    by (auto simp add: sink_def prod_eq_iff)
  have same: "page_quotes w1 = page_quotes w" by (simp add: w1 page_quotes_def)
  have ok: "write_quotes qs ls = (Inr (), ls @ new) \<Longrightarrow> \<exists>rs. map quote_fields qs = map Inr rs \<and> new = rs"
    for qs and ls new :: "'a quote_line list"
  proof (induction qs arbitrary: ls new)
    case Nil
    then show ?case by simp
  next
    case (Cons q qs)
    then obtain r where r: "quote_fields q = Inr r"
      by (cases "quote_fields q") auto
    with Cons.prems have step: "write_quotes qs (ls @ [r]) = (Inr (), ls @ new)" by simp
    obtain more where "snd (write_quotes qs (ls @ [r])) = (ls @ [r]) @ more"
      using write_quotes_extends by blast
    with step have new: "new = r # more" by simp
    with step have "write_quotes qs (ls @ [r]) = (Inr (), (ls @ [r]) @ more)" by simp
    from Cons.IH[OF this] obtain rs' where "map quote_fields qs = map Inr rs'" "more = rs'"
      by blast
    with r new show ?case by (intro exI[of _ "r # rs'"]) simp
  qed
  from ok[OF run] have "map quote_fields (page_quotes w) = map Inr rs" by blast
  then have "write_quotes (page_quotes w1) (old @ rs) = (Inr (), (old @ rs) @ rs)"
    unfolding same by (rule write_quotes_ok)
  moreover have "open_append (sink s w1) = Inr (old @ rs)" using assms(3) by simp
  ultimately show ?thesis
    using process_page_result[OF pg, of w1 "old @ rs"] by (simp add: sink_def)
qed

lemma used_file:
  "fs used_world ''out.jsonl'' = File [\<lparr>q_text = ''old'', q_by = ''Earlier'', q_tags = []\<rparr>]"
  "fs (used_world\<lparr>location := ''A''\<rparr>) ''out.jsonl'' =
     File [\<lparr>q_text = ''old'', q_by = ''Earlier'', q_tags = []\<rparr>]"
  by (simp_all add: used_world_def fresh_world_def)

lemma used_page_A:
  "fst (process_page (started ''A'') (used_world\<lparr>location := ''A''\<rparr>)) = Inr ()"
  "fs (snd (process_page (started ''A'') (used_world\<lparr>location := ''A''\<rparr>))) ''out.jsonl'' =
     File [\<lparr>q_text = ''old'', q_by = ''Earlier'', q_tags = []\<rparr>,
           \<lparr>q_text = ''It is our choices, Harry'', q_by = ''Dumbledore'',
             q_tags = [''courage'']\<rparr>]"
  "output_file (started ''A'') = ''out.jsonl''"
  by code_simp+

text \<open>
  C8.  The output file only grows at its end.  Whatever a file of the file system holds
  before, it holds the same lines, followed by new ones, after one call of the
  extraction step, after a whole run of \<open>scrape\<close> (however it ends, and at any point of
  a loop that is still running) and after a run of the entry point: lines of earlier
  pages and of earlier runs are never changed or removed.  Nothing is compared with what
  is already there: extracting the same page again adds the same records again.
\<close>

theorem C8_output_file_is_append_only:
  assumes "fs w p = File old"
  shows "(\<exists>new. fs (snd (process_page s w)) p = File (old @ new)) \<and>
         (\<exists>new. fs (snd (snd (scrape n s w))) p = File (old @ new)) \<and>
         (\<exists>new. fs (snd (snd (main n env w))) p = File (old @ new)) \<and>
         (p = output_file s \<longrightarrow> process_page s w = (Inr (), w1) \<longrightarrow>
            fs w1 p = File (old @ rs) \<longrightarrow>
            fs (snd (process_page s w1)) p = File (old @ rs @ rs))"
  using process_page_file[OF assms] scrape_file[OF assms] main_file[OF assms]
    process_page_again[of s w w1 old rs] assms
  by (auto simp add: sink_def)


theorem C8_output_file_is_append_only_witness:
  "(\<exists>new. fs (snd (snd (main 2 env_full used_world))) ''out.jsonl'' =
      File ([\<lparr>q_text = ''old'', q_by = ''Earlier'', q_tags = []\<rparr>] @ new)) \<and>
   fs (snd (process_page (started ''A'')
         (snd (process_page (started ''A'') (used_world\<lparr>location := ''A''\<rparr>)))))
      ''out.jsonl'' =
     File [\<lparr>q_text = ''old'', q_by = ''Earlier'', q_tags = []\<rparr>,
           \<lparr>q_text = ''It is our choices, Harry'', q_by = ''Dumbledore'',
             q_tags = [''courage'']\<rparr>,
           \<lparr>q_text = ''It is our choices, Harry'', q_by = ''Dumbledore'',
             q_tags = [''courage'']\<rparr>]"
proof -
  have run: "process_page (started ''A'') (used_world\<lparr>location := ''A''\<rparr>) =
      (Inr (), snd (process_page (started ''A'') (used_world\<lparr>location := ''A''\<rparr>)))"
    using used_page_A(1) by (simp add: prod_eq_iff)
  from C8_output_file_is_append_only[OF used_file(1), of "started ''A''" 2 env_full]
  have "\<exists>new. fs (snd (snd (main 2 env_full used_world))) ''out.jsonl'' =
      File ([\<lparr>q_text = ''old'', q_by = ''Earlier'', q_tags = []\<rparr>] @ new)"
    by blast
  moreover
  from C8_output_file_is_append_only[OF used_file(2), of "started ''A''" 2 env_full
      "snd (process_page (started ''A'') (used_world\<lparr>location := ''A''\<rparr>))"
      "[\<lparr>q_text = ''It is our choices, Harry'', q_by = ''Dumbledore'', q_tags = [''courage'']\<rparr>]"]
    run used_page_A(2,3)
  have "fs (snd (process_page (started ''A'')
         (snd (process_page (started ''A'') (used_world\<lparr>location := ''A''\<rparr>)))))
      ''out.jsonl'' =
     File [\<lparr>q_text = ''old'', q_by = ''Earlier'', q_tags = []\<rparr>,
           \<lparr>q_text = ''It is our choices, Harry'', q_by = ''Dumbledore'',
             q_tags = [''courage'']\<rparr>,
           \<lparr>q_text = ''It is our choices, Harry'', q_by = ''Dumbledore'',
             q_tags = [''courage'']\<rparr>]"
    by simp
  ultimately show ?thesis by blast
qed

section \<open>The entry point and the proxy\<close>


lemma full_env:
  "env_full ''PROXY'' = Some ''user:secret@proxy.example:8080''"
  "env_full ''INPUT_URL'' = Some ''A''" "env_full ''OUTPUT_FILE'' = Some ''out.jsonl''"
  by (simp_all add: env_full_def)






lemma write_quotes_error:
  "fst (write_quotes qs ls) = Inl e \<Longrightarrow> e = AttributeError"
proof (induction qs arbitrary: ls)
  case Nil
  then show ?case by simp
next
  case (Cons q qs)
  then show ?case
    by (cases "quote_fields q")
       (auto simp add: quote_fields_def split: option.splits)
qed

lemma process_page_error:
  "fst (process_page s w) = Inl e \<Longrightarrow> e = AttributeError \<or> e = OSError"
proof (cases "page s")
  case False
  assume "fst (process_page s w) = Inl e"
  with False show ?thesis by (simp add: process_page_def)
next
  case True
  assume e: "fst (process_page s w) = Inl e"
  show ?thesis
  proof (cases "fs w (output_file s)")
    case Denied
    with e True show ?thesis by (simp add: process_page_def)
  next
    case NoFile
    with e True have "fst (write_quotes (page_quotes w) []) = Inl e"
      by (simp add: process_page_def page_quotes_def split: prod.splits)
    then show ?thesis using write_quotes_error by blast
  next
    case (File old)
    with e True have "fst (write_quotes (page_quotes w) old) = Inl e"
      by (simp add: process_page_def page_quotes_def split: prod.splits)
    then show ?thesis using write_quotes_error by blast
  qed
qed

lemma loop_body_error:
  assumes "fst (loop_body s w) = Inl e"
  shows "e \<noteq> ValueError"
proof (cases "page s")
  case False
  with assms show ?thesis by (simp add: loop_body_def)
next
  case True
  obtain g w1 where g: "goto (input_url s) w = (g, w1)" by (cases "goto (input_url s) w")
  define w2 where "w2 = print_line (''Scraping:  '' @ input_url s) w1"
  obtain p w3 where p: "process_page s w2 = (p, w3)" by (cases "process_page s w2")
  show ?thesis
  proof (cases g)
    case (Inl e')
    with g have "e' = PlaywrightError" by (auto simp add: goto_def Let_def split: if_splits)
    with assms True g Inl show ?thesis by (simp add: loop_body_def)
  next
    case gok: (Inr u)
    show ?thesis
    proof (cases "wait_for_quotes s w2")
      case (Inl e')
      then have "e' = TimeoutError" using True
        by (auto simp add: wait_for_quotes_def split: if_splits)
      with assms True g gok Inl show ?thesis by (auto simp add: loop_body_def w2_def)
    next
      case wok: (Inr u2)
      show ?thesis
      proof (cases p)
        case (Inl e')
        with p have "e' = AttributeError \<or> e' = OSError"
          using process_page_error[of s w2 e'] by simp
        with assms True g gok wok p Inl show ?thesis
          by (auto simp add: loop_body_def w2_def)
      next
        case (Inr u3)
        with assms True g gok wok p show ?thesis
          by (cases "next_link (web w3 (location w3))")
             (auto simp add: loop_body_def w2_def)
      qed
    qed
  qed
qed

lemma scrape_loop_error:
  "fst (scrape_loop n s w) = Some (Inl e) \<Longrightarrow> e \<noteq> ValueError"
proof (induction n arbitrary: s w)
  case 0
  then show ?case by simp
next
  case (Suc n)
  obtain b s1 w1 where b: "loop_body s w = (b, s1, w1)" by (cases "loop_body s w")
  show ?case
  proof (cases b)
    case (Inl e')
    with Suc.prems b have "e' = e" by simp
    with loop_body_error[of s w e'] b Inl show ?thesis by simp
  next
    case (Inr ctl)
    with Suc.prems b Suc.IH[of s1 w1] show ?thesis by (cases ctl) auto
  qed
qed

lemma loop_changes_proxy_fields:
  assumes "loop_changes s w s' w'"
  shows "proxy_url s' = proxy_url s" "server s' = server s" "port s' = port s"
    "username s' = username s" "password s' = password s"
proof -
  from assms have s': "s' = s\<lparr>input_url := input_url s'\<rparr>" by (simp add: loop_changes_def)
  show "proxy_url s' = proxy_url s" using arg_cong[OF s', of proxy_url] by simp
  show "server s' = server s" using arg_cong[OF s', of server] by simp
  show "port s' = port s" using arg_cong[OF s', of port] by simp
  show "username s' = username s" using arg_cong[OF s', of username] by simp
  show "password s' = password s" using arg_cong[OF s', of password] by simp
qed

lemma scrape_without_proxy:
  assumes "proxy_url s = None"
  shows "fst (scrape n s w) \<noteq> Some (Inl ValueError)"
    and "proxy_url (fst (snd (scrape n s w))) = None"
    and "server (fst (snd (scrape n s w))) = server s"
    and "port (fst (snd (scrape n s w))) = port s"
    and "username (fst (snd (scrape n s w))) = username s"
    and "password (fst (snd (scrape n s w))) = password s"
    and "\<exists>evs. trace (snd (snd (scrape n s w))) = trace w @ evs \<and>
           (\<forall>a. Launch a \<in> set evs \<longrightarrow> a = None) \<and>
           (can_launch w \<longrightarrow> Launch None \<in> set evs)"
proof -
  obtain st s2 w2 where st: "start_playwright s w = (st, s2, w2)"
    by (cases "start_playwright s w")
  obtain r s3 w3 where lp: "scrape_loop n s2 w2 = (r, s3, w3)"
    by (cases "scrape_loop n s2 w2")
  have args: "browser_args s = None" using assms by (simp add: browser_args_def truthy_def)
  have s2: "proxy_url s2 = None" "server s2 = server s" "port s2 = port s"
    "username s2 = username s" "password s2 = password s"
    using st assms by (auto simp add: start_playwright_def Let_def split: if_splits)
  from st obtain evs1 where e1: "trace w2 = trace w @ evs1"
    "\<forall>a. Launch a \<in> set evs1 \<longrightarrow> a = None"
    "can_launch w \<longrightarrow> Launch None \<in> set evs1"
    "st = Inl PlaywrightError \<or> st = Inr ()"
    by (auto simp add: start_playwright_def Let_def args handle_captcha_def handle_cookies_def
        split: if_splits)
  note ch = scrape_loop_changes[OF lp]
  from loop_changes_session(4)[OF ch] obtain evs2
    where e2: "trace w3 = trace w2 @ evs2" "\<forall>a. Launch a \<notin> set evs2" by blast
  note s3 = loop_changes_proxy_fields[OF ch]
  have r: "r \<noteq> Some (Inl ValueError)" using scrape_loop_error[of n s2 w2 ValueError] lp by auto
  have run: "scrape n s w =
      (case st of Inl e \<Rightarrow> (Some (Inl e), s2, w2)
       | Inr _ \<Rightarrow> (case r of Some (Inr _) \<Rightarrow> (Some (Inr ()), s3, stop_playwright s3 w3)
                    | _ \<Rightarrow> (r, s3, w3)))"
    using assms st lp
    by (auto simp add: scrape_def truthy_def split: sum.splits option.splits)
  have stop: "\<exists>evs3. trace (stop_playwright s3 w3) = trace w3 @ evs3 \<and> (\<forall>a. Launch a \<notin> set evs3)"
    by (auto simp add: stop_playwright_def Let_def)
  then obtain evs3 where e3: "trace (stop_playwright s3 w3) = trace w3 @ evs3"
    "\<forall>a. Launch a \<notin> set evs3" by blast
  consider (failed) e where "st = Inl e"
    | (finished) "st = Inr ()" "r = Some (Inr ())"
    | (other) "st = Inr ()" "r \<noteq> Some (Inr ())"
    using e1(4) by auto
  then have all: "fst (scrape n s w) \<noteq> Some (Inl ValueError) \<and>
      proxy_url (fst (snd (scrape n s w))) = None \<and>
      server (fst (snd (scrape n s w))) = server s \<and>
      port (fst (snd (scrape n s w))) = port s \<and>
      username (fst (snd (scrape n s w))) = username s \<and>
      password (fst (snd (scrape n s w))) = password s \<and>
      (\<exists>evs. trace (snd (snd (scrape n s w))) = trace w @ evs \<and>
           (\<forall>a. Launch a \<in> set evs \<longrightarrow> a = None) \<and>
           (can_launch w \<longrightarrow> Launch None \<in> set evs))"
  proof cases
    case failed
    with e1(4) have "st = Inl PlaywrightError" by simp
    with run s2 e1 show ?thesis by simp
  next
    case finished
    with run have "scrape n s w = (Some (Inr ()), s3, stop_playwright s3 w3)" by simp
    moreover have "trace (stop_playwright s3 w3) = trace w @ (evs1 @ evs2 @ evs3)"
      using e1(1) e2(1) e3(1) by simp
    moreover have "\<forall>a. Launch a \<in> set (evs1 @ evs2 @ evs3) \<longrightarrow> a = None"
      using e1(2) e2(2) e3(2) by auto
    moreover have "can_launch w \<longrightarrow> Launch None \<in> set (evs1 @ evs2 @ evs3)"
      using e1(3) by simp
    ultimately show ?thesis using s2 s3 by (simp del: set_append append_assoc; blast)
  next
    case other
    with run have "scrape n s w = (r, s3, w3)"
      by (auto split: option.splits sum.splits)
    moreover have "trace w3 = trace w @ (evs1 @ evs2)"
      using e1(1) e2(1) by simp
    moreover have "\<forall>a. Launch a \<in> set (evs1 @ evs2) \<longrightarrow> a = None"
      using e1(2) e2(2) by auto
    moreover have "can_launch w \<longrightarrow> Launch None \<in> set (evs1 @ evs2)"
      using e1(3) by simp
    ultimately show ?thesis using s2 s3 r by (simp del: set_append append_assoc; blast)
  qed
  from all show "fst (scrape n s w) \<noteq> Some (Inl ValueError)" by blast
  from all show "proxy_url (fst (snd (scrape n s w))) = None" by blast
  from all show "server (fst (snd (scrape n s w))) = server s" by blast
  from all show "port (fst (snd (scrape n s w))) = port s" by blast
  from all show "username (fst (snd (scrape n s w))) = username s" by blast
  from all show "password (fst (snd (scrape n s w))) = password s" by blast
  from all show "\<exists>evs. trace (snd (snd (scrape n s w))) = trace w @ evs \<and>
           (\<forall>a. Launch a \<in> set evs \<longrightarrow> a = None) \<and>
           (can_launch w \<longrightarrow> Launch None \<in> set evs)" by blast
qed


text \<open>
  C9.  A run of the entry point never uses the proxy, whatever \<open>PROXY\<close> is set to: the
  scraper is built with \<open>proxy_url = None\<close>, so the step that splits the proxy string does
  not run (no \<open>ValueError\<close> of an ill-formed string, and the server, port, user name and
  password are still \<open>None\<close> at the end), and every browser launch of the run is without
  proxy settings; with the three variables set and a browser that can be launched there
  is such a launch.
\<close>

theorem C9_proxy_is_never_used:
  "fst (main n env w) \<noteq> Some (Inl ValueError) \<and>
   (\<forall>s'. fst (snd (main n env w)) = Some s' \<longrightarrow>
      proxy_url s' = None \<and> server s' = None \<and> port s' = None \<and>
      username s' = None \<and> password s' = None) \<and>
   (\<exists>evs. trace (snd (snd (main n env w))) = trace w @ evs \<and>
      (\<forall>a. Launch a \<in> set evs \<longrightarrow> a = None) \<and>
      (\<forall>p u f. env ''PROXY'' = Some p \<longrightarrow> env ''INPUT_URL'' = Some u \<longrightarrow>
         env ''OUTPUT_FILE'' = Some f \<longrightarrow> can_launch w \<longrightarrow> Launch None \<in> set evs)) \<and>
   (\<forall>p u f. env ''PROXY'' = Some p \<longrightarrow> env ''INPUT_URL'' = Some u \<longrightarrow>
      env ''OUTPUT_FILE'' = Some f \<longrightarrow>
      main n env w =
        (case scrape n (Scraper_init u f None) w of (r, s', w') \<Rightarrow> (r, Some s', w')) \<and>
      proxy_url (Scraper_init u f None) = None)"
proof (cases "env ''PROXY'' = None \<or> env ''INPUT_URL'' = None \<or> env ''OUTPUT_FILE'' = None")
  case True
  have "trace (snd (snd (main n env w))) = trace w @ []"
    unfolding main_missing[OF True] by (simp add: print_line_def)
  then have "\<exists>evs. trace (snd (snd (main n env w))) = trace w @ evs \<and>
      (\<forall>a. Launch a \<in> set evs \<longrightarrow> a = None) \<and>
      (\<forall>p u f. env ''PROXY'' = Some p \<longrightarrow> env ''INPUT_URL'' = Some u \<longrightarrow>
         env ''OUTPUT_FILE'' = Some f \<longrightarrow> can_launch w \<longrightarrow> Launch None \<in> set evs)"
    using True by (intro exI[of _ "[]"]) auto
  moreover have "fst (main n env w) \<noteq> Some (Inl ValueError)"
    and "fst (snd (main n env w)) = None"
    unfolding main_missing[OF True] by simp_all
  ultimately show ?thesis using True by auto
next
  case False
  then obtain x u f where env: "env ''PROXY'' = Some x" "env ''INPUT_URL'' = Some u"
    "env ''OUTPUT_FILE'' = Some f" by auto
  define s0 where "s0 = Scraper_init u f None"
  have init: "proxy_url s0 = None" "server s0 = None" "port s0 = None"
    "username s0 = None" "password s0 = None"
    by (simp_all add: s0_def Scraper_init_def)
  have run: "main n env w = (case scrape n s0 w of (r, s', w') \<Rightarrow> (r, Some s', w'))"
    unfolding s0_def using env by (rule main_starts)
  then have proj: "fst (main n env w) = fst (scrape n s0 w)"
    "fst (snd (main n env w)) = Some (fst (snd (scrape n s0 w)))"
    "snd (snd (main n env w)) = snd (snd (scrape n s0 w))"
    by (simp_all add: case_prod_beta)
  note facts = scrape_without_proxy[OF init(1), of n w]
  have a: "fst (main n env w) \<noteq> Some (Inl ValueError)"
    using facts(1) proj(1) by simp
  have b: "\<forall>s'. fst (snd (main n env w)) = Some s' \<longrightarrow>
      proxy_url s' = None \<and> server s' = None \<and> port s' = None \<and>
      username s' = None \<and> password s' = None"
    using facts(2-6) init proj(2) by simp
  from facts(7) obtain evs where "trace (snd (snd (scrape n s0 w))) = trace w @ evs"
    "\<forall>a. Launch a \<in> set evs \<longrightarrow> a = None" "can_launch w \<longrightarrow> Launch None \<in> set evs"
    by blast
  then have c: "\<exists>evs. trace (snd (snd (main n env w))) = trace w @ evs \<and>
      (\<forall>a. Launch a \<in> set evs \<longrightarrow> a = None) \<and>
      (\<forall>p u f. env ''PROXY'' = Some p \<longrightarrow> env ''INPUT_URL'' = Some u \<longrightarrow>
         env ''OUTPUT_FILE'' = Some f \<longrightarrow> can_launch w \<longrightarrow> Launch None \<in> set evs)"
    unfolding proj(3) by (intro exI[of _ evs]) simp
  have d: "\<forall>p u f. env ''PROXY'' = Some p \<longrightarrow> env ''INPUT_URL'' = Some u \<longrightarrow>
      env ''OUTPUT_FILE'' = Some f \<longrightarrow>
      main n env w =
        (case scrape n (Scraper_init u f None) w of (r, s', w') \<Rightarrow> (r, Some s', w')) \<and>
      proxy_url (Scraper_init u f None) = None"
    using main_starts[of env _ _ _ n w] by (simp add: Scraper_init_def)
  from a b c d show ?thesis by blast
qed

lemma run_full:
  "fst (main 2 env_full fresh_world) = Some (Inr ())"
  "fst (snd (main 2 env_full fresh_world)) \<noteq> None"
  "trace (snd (snd (main 2 env_full fresh_world))) =
     [PlaywrightStart, Launch None, NewContext (USER_AGENTS ! 0), NewPage, Goto ''A'', Click,
      Goto ''B'', BrowserClose, PlaywrightStop]"
  "can_launch fresh_world"
  by code_simp+

theorem C9_proxy_is_never_used_witness:
  "env_full ''PROXY'' = Some ''user:secret@proxy.example:8080'' \<and>
   (\<exists>s'. fst (snd (main 2 env_full fresh_world)) = Some s' \<and> proxy_url s' = None \<and>
      server s' = None \<and> username s' = None) \<and>
   Launch None \<in> set (trace (snd (snd (main 2 env_full fresh_world)))) \<and>
   main 2 env_full fresh_world =
     (case scrape 2 (Scraper_init ''A'' ''out.jsonl'' None) fresh_world of
        (r, s', w') \<Rightarrow> (r, Some s', w'))"
  using C9_proxy_is_never_used[of 2 env_full fresh_world] full_env run_full(2,3)
  by auto

end
